theory Spec2Isabelle
  imports Main "HOL-Library.AList" "HOL-Library.Multiset"
begin

section \<open>Tap Miner: the round state of \<open>src/tap-miner/server.js\<close>\<close>

text \<open>
  The server keeps one module-level object \<open>gameState\<close> and mutates it from four places:
  \<open>startNewGame\<close>, \<open>endGame\<close>, the \<open>message\<close> handler of a connection (\<open>join\<close>, \<open>tap\<close>)
  and its \<open>close\<close> handler. Node runs them one at a time, so each is a function from the
  state to the new state, the list of messages it sends, and the timers it sets.
\<close>

subsection \<open>Data\<close>

text \<open>
  One element of \<open>gameState.hashes\<close>. \<open>playerName\<close> is the result of
  \<open>gameState.players.get(playerId)\<close>, which is \<open>undefined\<close> for a missing key: \<open>None\<close>.
  \<open>timestamp\<close> is a value of \<open>Date.now()\<close>, an integer count of milliseconds.
\<close>

record submission =
  playerId :: string
  playerName :: "string option"
  hash :: string
  timestamp :: int
  tapCount :: int

text \<open>
  \<open>gameState\<close>. \<open>players\<close> is a JavaScript \<open>Map\<close>: an insertion-ordered table with
  distinct keys, here an association list. \<open>Map.set\<close> is \<open>AList.update\<close> (replace the value
  in place, or append a new entry), \<open>Map.delete\<close> is \<open>AList.delete\<close>, \<open>Map.get\<close> is
  \<open>map_of\<close>, \<open>Map.clear\<close> gives \<open>[]\<close>, and \<open>Map.size\<close> is the length of the list
  (its keys are distinct in every table built from the empty one by these operations).
  \<open>startTime\<close> is \<open>null\<close> until the first round starts.
\<close>

record gameState =
  isActive :: bool
  players :: "(string \<times> string) list"
  hashes :: "submission list"
  startTime :: "int option"
  duration :: nat

definition initialGameState :: gameState where
  "initialGameState =
     \<lparr>isActive = False, players = [], hashes = [], startTime = None, duration = 120000\<rparr>"

text \<open>The \<open>winner\<close> object of a \<open>gameEnd\<close> message.\<close>

record winnerInfo =
  w_playerId :: string
  w_playerName :: "string option"
  w_hash :: string
  w_leadingZeros :: int

text \<open>
  The messages the server sends, one constructor per \<open>type\<close>:
  \<open>gameStart\<close> (startTime), \<open>gameEnd\<close> (winner or \<open>null\<close>, allHashes),
  \<open>joined\<close> (playerId, gameActive, startTime, duration),
  \<open>playerJoined\<close> (playerId, playerName, playerCount), \<open>playerLeft\<close> (playerId, playerCount),
  \<open>newHash\<close> (playerId, playerName, hash, leadingZeros).
\<close>

datatype event =
    GameStart int
  | GameEnd "winnerInfo option" "submission list"
  | Joined string bool "int option" nat
  | PlayerJoined string string nat
  | PlayerLeft string nat
  | NewHash string "string option" string nat

text \<open>
  \<open>broadcast(message)\<close> sends to every open client, \<open>ws.send\<close> to the connection whose
  handler runs (named here by its \<open>playerId\<close>).
\<close>

datatype outgoing = Broadcast event | Send string event

text \<open>\<open>setTimeout(callback, delay)\<close>: the delay in milliseconds and the function to call.\<close>

datatype callback = CallEndGame | CallStartNewGame

type_synonym timer = "nat \<times> callback"

type_synonym effects = "gameState \<times> outgoing list \<times> timer list"

text \<open>The decoded inbound message; a \<open>type\<close> other than \<open>join\<close> and \<open>tap\<close> matches no case.\<close>

datatype message = Join string | Tap int | Other

subsection \<open>countLeadingZeros\<close>

text \<open>
  \<^verbatim>\<open>
  function countLeadingZeros(hash) {
      for (let i = 0; i < hash.length; i++) {
          if (hash[i] !== '0') { return i; }
      }
      return hash.length;
  }
  \<close>
  The loop, started at index \<open>i\<close>.
\<close>

function countLeadingZerosFrom :: "string \<Rightarrow> nat \<Rightarrow> nat" where
  "countLeadingZerosFrom h i =
     (if i < length h
      then (if h ! i \<noteq> CHR ''0'' then i else countLeadingZerosFrom h (i + 1))
      else length h)"
  by pat_completeness auto
termination
  by (relation "measure (\<lambda>(h, i). length h - i)") auto

declare countLeadingZerosFrom.simps [simp del]

definition countLeadingZeros :: "string \<Rightarrow> nat" where
  "countLeadingZeros h = countLeadingZerosFrom h 0"

subsection \<open>startNewGame and endGame\<close>

definition startNewGame :: "int \<Rightarrow> gameState \<Rightarrow> effects" where
  "startNewGame now s =
     (let s1 = s\<lparr>isActive := True\<rparr>;
          s2 = s1\<lparr>players := []\<rparr>;
          s3 = s2\<lparr>hashes := []\<rparr>;
          s4 = s3\<lparr>startTime := Some now\<rparr>
      in (s4, [Broadcast (GameStart now)], [(duration s4, CallEndGame)]))"

text \<open>
  The loop of \<open>endGame\<close> over the sorted array, with its two variables \<open>winner\<close>
  (initially \<open>null\<close>) and \<open>maxZeros\<close> (initially \<open>-1\<close>).
\<close>

fun scanHashes :: "submission list \<Rightarrow> submission option \<Rightarrow> int \<Rightarrow> submission option \<times> int" where
  "scanHashes [] winner maxZeros = (winner, maxZeros)"
| "scanHashes (x # xs) winner maxZeros =
     (let zeros = int (countLeadingZeros (hash x))
      in if zeros > maxZeros then scanHashes xs (Some x) zeros
         else scanHashes xs winner maxZeros)"

text \<open>
  \<open>gameState.hashes.sort((a, b) => a.timestamp - b.timestamp)\<close> sorts the array in place.
  \<open>Array.prototype.sort\<close> is a stable sort (ECMAScript 2019; the Dockerfile runs Node 18),
  and the comparator orders by \<open>timestamp\<close> ascending: \<open>sort_key timestamp\<close>, the stable
  insertion sort of the list library. The \<open>winner\<close> object reads the name from the roster
  as it is when the round ends.
\<close>

definition endGame :: "gameState \<Rightarrow> effects" where
  "endGame s =
     (let s1 = s\<lparr>isActive := False\<rparr>;
          s2 = s1\<lparr>hashes := sort_key timestamp (hashes s1)\<rparr>;
          (winner, maxZeros) = scanHashes (hashes s2) None (- 1)
      in (s2,
          [Broadcast (GameEnd
             (case winner of
                Some w \<Rightarrow> Some \<lparr>w_playerId = playerId w,
                                 w_playerName = map_of (players s2) (playerId w),
                                 w_hash = hash w,
                                 w_leadingZeros = maxZeros\<rparr>
              | None \<Rightarrow> None)
             (hashes s2))],
          [(10000, CallStartNewGame)]))"

subsection \<open>The handlers of a connection\<close>

text \<open>
  \<open>ws.on('message')\<close> for the connection with identity \<open>pid\<close>, at time \<open>now\<close>
  (\<open>Date.now()\<close>). \<open>digestOf pid ts n\<close> stands for the expression
  \<^verbatim>\<open>crypto.createHash('sha256').update(`${playerId}${timestamp}${data.tapCount}`).digest('hex')\<close>:
  the number formatting of the template literal and the hash of the \<open>crypto\<close> library are
  not modelled, the digest is any function of the three values. \<open>tapCount\<close> is the integer
  of a well-formed \<open>tap\<close> message.
\<close>

definition onMessage :: "(string \<Rightarrow> int \<Rightarrow> int \<Rightarrow> string) \<Rightarrow> string \<Rightarrow> int \<Rightarrow> message \<Rightarrow> gameState \<Rightarrow> effects" where
  "onMessage digestOf pid now m s =
     (case m of
        Join name \<Rightarrow>
          (let s1 = s\<lparr>players := AList.update pid name (players s)\<rparr>
           in (s1,
               [Send pid (Joined pid (isActive s1) (startTime s1) (duration s1)),
                Broadcast (PlayerJoined pid name (length (players s1)))],
               []))
      | Tap n \<Rightarrow>
          (if isActive s then
             (let ts = now;
                  h = digestOf pid ts n;
                  s1 = s\<lparr>hashes := hashes s @
                          [\<lparr>playerId = pid, playerName = map_of (players s) pid,
                            hash = h, timestamp = ts, tapCount = n\<rparr>]\<rparr>
              in (s1,
                  [Broadcast (NewHash pid (map_of (players s1) pid) h (countLeadingZeros h))],
                  []))
           else (s, [], []))
      | Other \<Rightarrow> (s, [], []))"

text \<open>\<open>ws.on('close')\<close> for the connection with identity \<open>pid\<close>.\<close>

definition onClose :: "string \<Rightarrow> gameState \<Rightarrow> effects" where
  "onClose pid s =
     (let s1 = s\<lparr>players := AList.delete pid (players s)\<rparr>
      in (s1, [Broadcast (PlayerLeft pid (length (players s1)))], []))"

subsection \<open>The server as a transition system\<close>

text \<open>
  What can happen to \<open>gameState\<close> once the process runs: the callback of
  \<open>server.listen\<close> in \<open>initializeServer\<close> calls \<open>startNewGame()\<close> once; afterwards a
  connection delivers a message or closes, or a timer that is pending fires and calls its
  callback. \<open>P\<close> lists the callbacks of the timers set and not yet fired. Delays are left
  out: any pending timer may be the next to fire.
\<close>

inductive reachable :: "(string \<Rightarrow> int \<Rightarrow> int \<Rightarrow> string) \<Rightarrow> gameState \<Rightarrow> callback list \<Rightarrow> bool"
  for digestOf :: "string \<Rightarrow> int \<Rightarrow> int \<Rightarrow> string" where
  listen:
    "startNewGame now initialGameState = (s, out, ts) \<Longrightarrow> reachable digestOf s (map snd ts)"
| message:
    "reachable digestOf s P \<Longrightarrow> onMessage digestOf pid now m s = (s', out, ts) \<Longrightarrow>
     reachable digestOf s' (P @ map snd ts)"
| close:
    "reachable digestOf s P \<Longrightarrow> onClose pid s = (s', out, ts) \<Longrightarrow>
     reachable digestOf s' (P @ map snd ts)"
| endTimer:
    "reachable digestOf s P \<Longrightarrow> CallEndGame \<in> set P \<Longrightarrow> endGame s = (s', out, ts) \<Longrightarrow>
     reachable digestOf s' (remove1 CallEndGame P @ map snd ts)"
| startTimer:
    "reachable digestOf s P \<Longrightarrow> CallStartNewGame \<in> set P \<Longrightarrow>
     startNewGame now s = (s', out, ts) \<Longrightarrow>
     reachable digestOf s' (remove1 CallStartNewGame P @ map snd ts)"

subsection \<open>Notions of the specification\<close>

text \<open>
  The leading-zero counts of a sequence of submissions, and the specification's winner:
  index \<open>i\<close> holds a count strictly greater than every count before it and not smaller
  than any count of the sequence (the first occurrence of the maximum).
\<close>

definition zerosOf :: "submission list \<Rightarrow> nat list" where
  "zerosOf xs = map (\<lambda>x. countLeadingZeros (hash x)) xs"

definition firstMaximum :: "nat list \<Rightarrow> nat \<Rightarrow> bool" where
  "firstMaximum zs i \<longleftrightarrow>
     i < length zs \<and> (\<forall>j<i. zs ! j < zs ! i) \<and> (\<forall>j<length zs. zs ! j \<le> zs ! i)"

subsection \<open>Concrete rounds\<close>

text \<open>A stand-in for the digest function at concrete inputs: every digest is \<open>00ab\<close>.\<close>

definition constDigest :: "string \<Rightarrow> int \<Rightarrow> int \<Rightarrow> string" where
  "constDigest pid ts n = ''00ab''"

text \<open>
  Four submissions whose leading-zero counts are 2, 5, 5, 3 in timestamp order, appended
  out of that order, in a round about to end with the two submitters on the roster.
\<close>

definition tieRound :: gameState where
  "tieRound =
     \<lparr>isActive = True,
      players = [(''p1'', ''Alice''), (''p2'', ''Bob'')],
      hashes =
        [\<lparr>playerId = ''p2'', playerName = Some ''Bob'', hash = ''00000c'', timestamp = 30, tapCount = 2\<rparr>,
         \<lparr>playerId = ''p1'', playerName = Some ''Alice'', hash = ''00a1'', timestamp = 10, tapCount = 1\<rparr>,
         \<lparr>playerId = ''p1'', playerName = Some ''Alice'', hash = ''000d'', timestamp = 40, tapCount = 2\<rparr>,
         \<lparr>playerId = ''p2'', playerName = Some ''Bob'', hash = ''00000b'', timestamp = 20, tapCount = 1\<rparr>],
      startTime = Some 0,
      duration = 120000\<rparr>"

text \<open>
  A round in which \<open>p1\<close> joins as Alice, taps once and disconnects before the round ends.
\<close>

definition joinedRound :: gameState where
  "joinedRound =
     fst (onMessage constDigest ''p1'' 1 (Join ''Alice'') (fst (startNewGame 0 initialGameState)))"

definition tappedRound :: gameState where
  "tappedRound = fst (onMessage constDigest ''p1'' 2 (Tap 1) joinedRound)"

definition leftRound :: gameState where
  "leftRound = fst (onClose ''p1'' tappedRound)"

text \<open>The same round, with \<open>p1\<close> joining a second time under another name after the tap.\<close>

definition renamedRound :: gameState where
  "renamedRound = fst (onMessage constDigest ''p1'' 3 (Join ''Alicia'') tappedRound)"

section \<open>countLeadingZeros\<close>

lemma countLeadingZerosFrom_takeWhile:
  "i \<le> length h \<Longrightarrow>
   countLeadingZerosFrom h i = i + length (takeWhile (\<lambda>c. c = CHR ''0'') (drop i h))"
proof (induction h i rule: countLeadingZerosFrom.induct)
  case (1 h i)
  show ?case
  proof (cases "i < length h")
    case False
    with "1.prems" show ?thesis
      by (subst countLeadingZerosFrom.simps) simp
  next
    case True
    then have d: "drop i h = h ! i # drop (Suc i) h"
      by (simp add: Cons_nth_drop_Suc)
    show ?thesis
    proof (cases "h ! i = CHR ''0''")
      case True
      with \<open>i < length h\<close> "1.IH" d show ?thesis
        by (subst countLeadingZerosFrom.simps) simp
    next
      case False
      with \<open>i < length h\<close> d show ?thesis
        by (subst countLeadingZerosFrom.simps) simp
    qed
  qed
qed

lemma countLeadingZeros_takeWhile:
  "countLeadingZeros h = length (takeWhile (\<lambda>c. c = CHR ''0'') h)"
  by (simp add: countLeadingZeros_def countLeadingZerosFrom_takeWhile)

lemma countLeadingZeros_le: "countLeadingZeros h \<le> length h"
  by (simp add: countLeadingZeros_takeWhile length_takeWhile_le)

lemma countLeadingZeros_prefix: "j < countLeadingZeros h \<Longrightarrow> h ! j = CHR ''0''"
  by (metis (mono_tags, lifting) countLeadingZeros_takeWhile nth_mem set_takeWhileD
      takeWhile_nth)

lemma countLeadingZeros_stop:
  "countLeadingZeros h < length h \<Longrightarrow> h ! countLeadingZeros h \<noteq> CHR ''0''"
  unfolding countLeadingZeros_takeWhile by (rule nth_length_takeWhile)

text \<open>
  C2. For every digest string \<open>h\<close>, \<open>countLeadingZeros h\<close> is the index of the first
  character that is not \<open>0\<close>, or the length of \<open>h\<close> when every character is \<open>0\<close>: it is
  at most the length, every position before it holds \<open>0\<close>, and when it is smaller than the
  length the position it names does not hold \<open>0\<close>. It counts characters:
  \<open>0003ab\<close> gives 3, \<open>000000\<close> gives 6, \<open>abc\<close> gives 0.
\<close>

theorem countLeadingZeros_first_nonzero:
  "countLeadingZeros h \<le> length h
   \<and> (\<forall>j<countLeadingZeros h. h ! j = CHR ''0'')
   \<and> (countLeadingZeros h < length h \<longrightarrow> h ! countLeadingZeros h \<noteq> CHR ''0'')
   \<and> countLeadingZeros ''0003ab'' = 3
   \<and> countLeadingZeros ''000000'' = 6
   \<and> countLeadingZeros ''abc'' = 0"
  using countLeadingZeros_le countLeadingZeros_prefix countLeadingZeros_stop
  by (simp add: countLeadingZeros_takeWhile)

theorem countLeadingZeros_first_nonzero_witness:
  "countLeadingZeros ''0003ab'' = 3
   \<and> countLeadingZeros ''0003ab'' < length ''0003ab''
   \<and> ''0003ab'' ! countLeadingZeros ''0003ab'' \<noteq> CHR ''0''
   \<and> ''0003ab'' ! 0 = CHR ''0'' \<and> ''0003ab'' ! 1 = CHR ''0'' \<and> ''0003ab'' ! 2 = CHR ''0''"
  using countLeadingZeros_first_nonzero [of "''0003ab''"]
  by (simp add: countLeadingZeros_takeWhile)

section \<open>The scan of endGame\<close>

lemma scanHashes_below:
  "\<forall>x\<in>set xs. int (countLeadingZeros (hash x)) \<le> m \<Longrightarrow> scanHashes xs w m = (w, m)"
  by (induction xs arbitrary: w m) (auto simp: Let_def)

lemma scanHashes_first_max:
  "i < length xs \<Longrightarrow>
   \<forall>j<i. countLeadingZeros (hash (xs ! j)) < countLeadingZeros (hash (xs ! i)) \<Longrightarrow>
   \<forall>j<length xs. countLeadingZeros (hash (xs ! j)) \<le> countLeadingZeros (hash (xs ! i)) \<Longrightarrow>
   m < int (countLeadingZeros (hash (xs ! i))) \<Longrightarrow>
   scanHashes xs w m = (Some (xs ! i), int (countLeadingZeros (hash (xs ! i))))"
proof (induction xs arbitrary: i w m)
  case Nil
  then show ?case by simp
next
  case (Cons x xs)
  show ?case
  proof (cases i)
    case 0
    have "\<forall>y\<in>set xs. int (countLeadingZeros (hash y)) \<le> int (countLeadingZeros (hash x))"
    proof
      fix y assume "y \<in> set xs"
      then obtain k where "k < length xs" "xs ! k = y" by (auto simp: in_set_conv_nth)
      with Cons.prems(3) [rule_format, of "Suc k"] 0
      show "int (countLeadingZeros (hash y)) \<le> int (countLeadingZeros (hash x))"
        by simp
    qed
    then have "scanHashes xs (Some x) (int (countLeadingZeros (hash x)))
               = (Some x, int (countLeadingZeros (hash x)))"
      by (rule scanHashes_below)
    with 0 Cons.prems(4) show ?thesis by (simp add: Let_def)
  next
    case (Suc k)
    have k: "k < length xs" using Cons.prems(1) Suc by simp
    have lt: "\<forall>j<k. countLeadingZeros (hash (xs ! j)) < countLeadingZeros (hash (xs ! k))"
      using Cons.prems(2) Suc by (metis Suc_less_eq nth_Cons_Suc)
    have le: "\<forall>j<length xs. countLeadingZeros (hash (xs ! j)) \<le> countLeadingZeros (hash (xs ! k))"
      using Cons.prems(3) Suc by (metis Suc_less_eq length_Cons nth_Cons_Suc)
    have x: "countLeadingZeros (hash x) < countLeadingZeros (hash (xs ! k))"
      using Cons.prems(2) [rule_format, of 0] Suc by simp
    show ?thesis
    proof (cases "int (countLeadingZeros (hash x)) > m")
      case True
      have "scanHashes xs (Some x) (int (countLeadingZeros (hash x)))
            = (Some (xs ! k), int (countLeadingZeros (hash (xs ! k))))"
        using Cons.IH [OF k lt le] x by simp
      with True Suc show ?thesis by (simp add: Let_def)
    next
      case False
      have "scanHashes xs w m = (Some (xs ! k), int (countLeadingZeros (hash (xs ! k))))"
        using Cons.IH [OF k lt le] Cons.prems(4) Suc by simp
      with False Suc show ?thesis by (simp add: Let_def)
    qed
  qed
qed

lemma scanHashes_strict_max:
  "x \<in> set xs \<Longrightarrow>
   \<forall>y\<in>set xs. y \<noteq> x \<longrightarrow> countLeadingZeros (hash y) < countLeadingZeros (hash x) \<Longrightarrow>
   m < int (countLeadingZeros (hash x)) \<Longrightarrow>
   scanHashes xs w m = (Some x, int (countLeadingZeros (hash x)))"
proof (induction xs arbitrary: w m)
  case Nil
  then show ?case by simp
next
  case (Cons y ys)
  show ?case
  proof (cases "y = x")
    case True
    have "\<forall>v\<in>set ys. int (countLeadingZeros (hash v)) \<le> int (countLeadingZeros (hash x))"
      using Cons.prems(2) by (auto simp: less_imp_le)
    then have "scanHashes ys (Some x) (int (countLeadingZeros (hash x)))
               = (Some x, int (countLeadingZeros (hash x)))"
      by (rule scanHashes_below)
    with True Cons.prems(3) show ?thesis by (simp add: Let_def)
  next
    case False
    then have mem: "x \<in> set ys" using Cons.prems(1) by simp
    have rest: "\<forall>v\<in>set ys. v \<noteq> x \<longrightarrow> countLeadingZeros (hash v) < countLeadingZeros (hash x)"
      using Cons.prems(2) by simp
    have y: "countLeadingZeros (hash y) < countLeadingZeros (hash x)"
      using Cons.prems(2) False by simp
    show ?thesis
    proof (cases "int (countLeadingZeros (hash y)) > m")
      case True
      have "scanHashes ys (Some y) (int (countLeadingZeros (hash y)))
            = (Some x, int (countLeadingZeros (hash x)))"
        using Cons.IH [OF mem rest] y by simp
      with True show ?thesis by (simp add: Let_def)
    next
      case False
      have "scanHashes ys w m = (Some x, int (countLeadingZeros (hash x)))"
        using Cons.IH [OF mem rest] Cons.prems(3) by simp
      with False show ?thesis by (simp add: Let_def)
    qed
  qed
qed

lemma scanHashes_result:
  "scanHashes xs w m = (w', m') \<Longrightarrow>
   (w' = w \<and> m' = m) \<or> (\<exists>x\<in>set xs. w' = Some x \<and> m' = int (countLeadingZeros (hash x)))"
proof (induction xs arbitrary: w m)
  case Nil
  then show ?case by simp
next
  case (Cons y ys)
  show ?case
  proof (cases "int (countLeadingZeros (hash y)) > m")
    case True
    with Cons.prems have "scanHashes ys (Some y) (int (countLeadingZeros (hash y))) = (w', m')"
      by (simp add: Let_def)
    from Cons.IH [OF this] show ?thesis by auto
  next
    case False
    with Cons.prems have "scanHashes ys w m = (w', m')"
      by (simp add: Let_def)
    from Cons.IH [OF this] show ?thesis by auto
  qed
qed

lemma scanHashes_Nil_iff:
  "fst (scanHashes xs None (- 1)) = None \<longleftrightarrow> xs = []"
proof (cases xs)
  case Nil
  then show ?thesis by simp
next
  case (Cons y ys)
  have "scanHashes (y # ys) None (- 1) = scanHashes ys (Some y) (int (countLeadingZeros (hash y)))"
    by (simp add: Let_def)
  moreover obtain w' m' where r: "scanHashes ys (Some y) (int (countLeadingZeros (hash y))) = (w', m')"
    by (cases "scanHashes ys (Some y) (int (countLeadingZeros (hash y)))")
  moreover from scanHashes_result [OF r] have "w' \<noteq> None" by auto
  ultimately show ?thesis using Cons by simp
qed

lemma firstMaximum_exists: "zs \<noteq> [] \<Longrightarrow> \<exists>i. firstMaximum zs i"
proof (induction zs)
  case Nil
  then show ?case by simp
next
  case (Cons z zs)
  show ?case
  proof (cases "zs = []")
    case True
    then have "firstMaximum (z # zs) 0" by (simp add: firstMaximum_def)
    then show ?thesis ..
  next
    case False
    with Cons.IH obtain i where i: "firstMaximum zs i" by blast
    show ?thesis
    proof (cases "zs ! i \<le> z")
      case True
      have "firstMaximum (z # zs) 0"
        unfolding firstMaximum_def
      proof (intro conjI allI impI)
        fix j assume "j < length (z # zs)"
        then show "(z # zs) ! j \<le> (z # zs) ! 0"
          using i True by (cases j) (auto simp: firstMaximum_def intro: order_trans)
      qed simp_all
      then show ?thesis ..
    next
      case False
      have "firstMaximum (z # zs) (Suc i)"
        unfolding firstMaximum_def
      proof (intro conjI allI impI)
        show "Suc i < length (z # zs)" using i by (simp add: firstMaximum_def)
      next
        fix j assume "j < Suc i"
        then show "(z # zs) ! j < (z # zs) ! Suc i"
          using i False by (cases j) (auto simp: firstMaximum_def)
      next
        fix j assume "j < length (z # zs)"
        then show "(z # zs) ! j \<le> (z # zs) ! Suc i"
          using i False by (cases j) (auto simp: firstMaximum_def)
      qed
      then show ?thesis ..
    qed
  qed
qed

lemma endGame_at_first_maximum:
  assumes "firstMaximum (zerosOf (sort_key timestamp (hashes s))) i"
  shows "endGame s =
           (s\<lparr>isActive := False, hashes := sort_key timestamp (hashes s)\<rparr>,
            [Broadcast (GameEnd
               (Some \<lparr>w_playerId = playerId (sort_key timestamp (hashes s) ! i),
                      w_playerName = map_of (players s) (playerId (sort_key timestamp (hashes s) ! i)),
                      w_hash = hash (sort_key timestamp (hashes s) ! i),
                      w_leadingZeros = int (countLeadingZeros (hash (sort_key timestamp (hashes s) ! i)))\<rparr>)
               (sort_key timestamp (hashes s)))],
            [(10000, CallStartNewGame)])"
proof -
  let ?xs = "sort_key timestamp (hashes s)"
  from assms have i: "i < length ?xs"
    and lt: "\<forall>j<i. countLeadingZeros (hash (?xs ! j)) < countLeadingZeros (hash (?xs ! i))"
    and le: "\<forall>j<length ?xs. countLeadingZeros (hash (?xs ! j)) \<le> countLeadingZeros (hash (?xs ! i))"
    by (auto simp: firstMaximum_def zerosOf_def)
  have "scanHashes ?xs None (- 1) = (Some (?xs ! i), int (countLeadingZeros (hash (?xs ! i))))"
    using i lt le by (rule scanHashes_first_max) simp
  then show ?thesis by (simp add: endGame_def)
qed

text \<open>
  C1. The winner of a round is found by one scan of the submissions sorted by timestamp
  that keeps the greatest leading-zero count seen so far. For every state with at least one
  submission the sorted sequence has an index whose count is strictly greater than every
  count before it and not smaller than any count (the first occurrence of the maximum), and
  for every such index \<open>i\<close> the \<open>gameEnd\<close> message of \<open>endGame\<close> names the submission at
  \<open>i\<close> as winner, with that count: a later submission with the same count does not
  replace it. For counts 2, 5, 5, 3 the index is 1.
\<close>

theorem endGame_winner_first_maximum:
  assumes "hashes s \<noteq> []"
  shows "(\<exists>i. firstMaximum (zerosOf (sort_key timestamp (hashes s))) i)
       \<and> (\<forall>i. firstMaximum (zerosOf (sort_key timestamp (hashes s))) i \<longrightarrow>
            endGame s =
              (s\<lparr>isActive := False, hashes := sort_key timestamp (hashes s)\<rparr>,
               [Broadcast (GameEnd
                  (Some \<lparr>w_playerId = playerId (sort_key timestamp (hashes s) ! i),
                         w_playerName = map_of (players s) (playerId (sort_key timestamp (hashes s) ! i)),
                         w_hash = hash (sort_key timestamp (hashes s) ! i),
                         w_leadingZeros = int (countLeadingZeros (hash (sort_key timestamp (hashes s) ! i)))\<rparr>)
                  (sort_key timestamp (hashes s)))],
               [(10000, CallStartNewGame)]))"
proof -
  have "sort_key timestamp (hashes s) \<noteq> []"
    using assms by (metis length_sort length_0_conv)
  then have "zerosOf (sort_key timestamp (hashes s)) \<noteq> []"
    by (simp add: zerosOf_def)
  then have "\<exists>i. firstMaximum (zerosOf (sort_key timestamp (hashes s))) i"
    by (rule firstMaximum_exists)
  then show ?thesis using endGame_at_first_maximum by blast
qed

lemma tieRound_sorted:
  "sort_key timestamp (hashes tieRound) =
     [\<lparr>playerId = ''p1'', playerName = Some ''Alice'', hash = ''00a1'', timestamp = 10, tapCount = 1\<rparr>,
      \<lparr>playerId = ''p2'', playerName = Some ''Bob'', hash = ''00000b'', timestamp = 20, tapCount = 1\<rparr>,
      \<lparr>playerId = ''p2'', playerName = Some ''Bob'', hash = ''00000c'', timestamp = 30, tapCount = 2\<rparr>,
      \<lparr>playerId = ''p1'', playerName = Some ''Alice'', hash = ''000d'', timestamp = 40, tapCount = 2\<rparr>]"
  by (simp add: tieRound_def)

lemma tieRound_zeros: "zerosOf (sort_key timestamp (hashes tieRound)) = [2, 5, 5, 3]"
  by (simp add: tieRound_sorted zerosOf_def countLeadingZeros_takeWhile)

lemma firstMaximum_example: "firstMaximum [2, 5, 5, 3] 1"
  by (simp add: firstMaximum_def less_Suc_eq numeral_eq_Suc all_conj_distrib)

theorem endGame_winner_first_maximum_witness:
  "hashes tieRound \<noteq> []
   \<and> zerosOf (sort_key timestamp (hashes tieRound)) = [2, 5, 5, 3]
   \<and> firstMaximum (zerosOf (sort_key timestamp (hashes tieRound))) 1
   \<and> fst (snd (endGame tieRound)) =
       [Broadcast (GameEnd
          (Some \<lparr>w_playerId = ''p2'', w_playerName = Some ''Bob'', w_hash = ''00000b'',
                 w_leadingZeros = 5\<rparr>)
          (sort_key timestamp (hashes tieRound)))]"
proof -
  have ne: "hashes tieRound \<noteq> []" by (simp add: tieRound_def)
  have fm: "firstMaximum (zerosOf (sort_key timestamp (hashes tieRound))) 1"
    by (simp only: tieRound_zeros firstMaximum_example)
  from endGame_winner_first_maximum [OF ne] fm
  have "endGame tieRound =
              (tieRound\<lparr>isActive := False, hashes := sort_key timestamp (hashes tieRound)\<rparr>,
               [Broadcast (GameEnd
                  (Some \<lparr>w_playerId = playerId (sort_key timestamp (hashes tieRound) ! 1),
                         w_playerName = map_of (players tieRound) (playerId (sort_key timestamp (hashes tieRound) ! 1)),
                         w_hash = hash (sort_key timestamp (hashes tieRound) ! 1),
                         w_leadingZeros = int (countLeadingZeros (hash (sort_key timestamp (hashes tieRound) ! 1)))\<rparr>)
                  (sort_key timestamp (hashes tieRound)))],
               [(10000, CallStartNewGame)])"
    by blast
  then have "fst (snd (endGame tieRound)) =
       [Broadcast (GameEnd
          (Some \<lparr>w_playerId = ''p2'', w_playerName = Some ''Bob'', w_hash = ''00000b'',
                 w_leadingZeros = 5\<rparr>)
          (sort_key timestamp (hashes tieRound)))]"
    by (simp add: tieRound_sorted countLeadingZeros_takeWhile) (simp add: tieRound_def)
  with ne fm tieRound_zeros show ?thesis by simp
qed

section \<open>endGame\<close>

lemma endGame_state:
  "fst (endGame s) = s\<lparr>isActive := False, hashes := sort_key timestamp (hashes s)\<rparr>"
  by (simp add: endGame_def Let_def split: prod.splits)

lemma endGame_components:
  "endGame s = (s', out, ts) \<Longrightarrow>
   s' = s\<lparr>isActive := False, hashes := sort_key timestamp (hashes s)\<rparr>
   \<and> ts = [(10000, CallStartNewGame)]
   \<and> out = [Broadcast (GameEnd
        (case fst (scanHashes (hashes s') None (- 1)) of
           Some w \<Rightarrow> Some \<lparr>w_playerId = playerId w,
                            w_playerName = map_of (players s) (playerId w),
                            w_hash = hash w,
                            w_leadingZeros = snd (scanHashes (hashes s') None (- 1))\<rparr>
         | None \<Rightarrow> None)
        (hashes s'))]"
proof -
  obtain w m where r: "scanHashes (sort_key timestamp (hashes s)) None (- 1) = (w, m)"
    by (cases "scanHashes (sort_key timestamp (hashes s)) None (- 1)")
  assume "endGame s = (s', out, ts)"
  with r show ?thesis
    by (auto simp: endGame_def Let_def split: option.splits)
qed

text \<open>
  C6. For every state without submissions, \<open>endGame\<close> broadcasts one \<open>gameEnd\<close> message
  whose winner is \<open>null\<close> and whose \<open>allHashes\<close> is empty (and clears the active flag and
  sets the timer of the next round).
\<close>

theorem endGame_no_submissions:
  assumes "hashes s = []"
  shows "endGame s =
           (s\<lparr>isActive := False, hashes := []\<rparr>,
            [Broadcast (GameEnd None [])],
            [(10000, CallStartNewGame)])"
  using assms by (simp add: endGame_def Let_def)

theorem endGame_no_submissions_witness:
  "hashes (fst (startNewGame 0 initialGameState)) = []
   \<and> fst (snd (endGame (fst (startNewGame 0 initialGameState)))) = [Broadcast (GameEnd None [])]"
proof -
  have e: "hashes (fst (startNewGame 0 initialGameState)) = []"
    by (simp add: startNewGame_def)
  from endGame_no_submissions [OF e] e show ?thesis by simp
qed

text \<open>
  C4. For every submission sequence, in whatever order it was appended, \<open>endGame\<close> leaves
  and broadcasts as \<open>allHashes\<close> the sequence sorted by timestamp ascending: it is sorted, it
  has exactly the entries of the appended sequence (equal as multisets), entries with equal
  timestamps keep their order of insertion (for every timestamp \<open>t\<close> the entries stamped
  \<open>t\<close> form the same list before and after), and the winner is the result of the scan
  over the sorted sequence.
\<close>

theorem endGame_sorts_by_timestamp:
  assumes "endGame s = (s', out, ts)"
  shows "\<exists>w. out = [Broadcast (GameEnd w (hashes s'))]
           \<and> sorted (map timestamp (hashes s'))
           \<and> mset (hashes s') = mset (hashes s)
           \<and> (\<forall>t. filter (\<lambda>x. timestamp x = t) (hashes s') = filter (\<lambda>x. timestamp x = t) (hashes s))
           \<and> map_option w_hash w = map_option hash (fst (scanHashes (hashes s') None (- 1)))
           \<and> map_option w_playerId w = map_option playerId (fst (scanHashes (hashes s') None (- 1)))"
proof -
  from endGame_components [OF assms]
  have s': "hashes s' = sort_key timestamp (hashes s)"
    and out: "out = [Broadcast (GameEnd
        (case fst (scanHashes (hashes s') None (- 1)) of
           Some w \<Rightarrow> Some \<lparr>w_playerId = playerId w,
                            w_playerName = map_of (players s) (playerId w),
                            w_hash = hash w,
                            w_leadingZeros = snd (scanHashes (hashes s') None (- 1))\<rparr>
         | None \<Rightarrow> None)
        (hashes s'))]"
    by simp_all
  have "sorted (map timestamp (hashes s'))"
    by (simp add: s')
  moreover have "mset (hashes s') = mset (hashes s)"
    by (simp add: s')
  moreover have "\<forall>t. filter (\<lambda>x. timestamp x = t) (hashes s') = filter (\<lambda>x. timestamp x = t) (hashes s)"
    by (simp add: s' sort_key_stable)
  ultimately show ?thesis
    using out by (auto split: option.splits)
qed

theorem endGame_sorts_by_timestamp_witness:
  "endGame tieRound =
     (tieRound\<lparr>isActive := False, hashes := sort_key timestamp (hashes tieRound)\<rparr>,
      [Broadcast (GameEnd
         (Some \<lparr>w_playerId = ''p2'', w_playerName = Some ''Bob'', w_hash = ''00000b'',
                w_leadingZeros = 5\<rparr>)
         (sort_key timestamp (hashes tieRound)))],
      [(10000, CallStartNewGame)])
   \<and> map timestamp (hashes tieRound) = [30, 10, 40, 20]
   \<and> map timestamp (sort_key timestamp (hashes tieRound)) = [10, 20, 30, 40]
   \<and> sorted (map timestamp (sort_key timestamp (hashes tieRound)))
   \<and> mset (sort_key timestamp (hashes tieRound)) = mset (hashes tieRound)
   \<and> map_option hash (fst (scanHashes (sort_key timestamp (hashes tieRound)) None (- 1))) = Some ''00000b''
   \<and> map_option hash (fst (scanHashes (hashes tieRound) None (- 1))) = Some ''00000c''"
proof -
  have fm: "firstMaximum (zerosOf (sort_key timestamp (hashes tieRound))) 1"
    by (simp only: tieRound_zeros firstMaximum_example)
  have h: "endGame tieRound =
     (tieRound\<lparr>isActive := False, hashes := sort_key timestamp (hashes tieRound)\<rparr>,
      [Broadcast (GameEnd
         (Some \<lparr>w_playerId = ''p2'', w_playerName = Some ''Bob'', w_hash = ''00000b'',
                w_leadingZeros = 5\<rparr>)
         (sort_key timestamp (hashes tieRound)))],
      [(10000, CallStartNewGame)])"
    unfolding endGame_at_first_maximum [OF fm]
    by (simp add: tieRound_sorted countLeadingZeros_takeWhile) (simp add: tieRound_def)
  have u: "map_option hash (fst (scanHashes (hashes tieRound) None (- 1))) = Some ''00000c''"
    by (simp add: tieRound_def countLeadingZeros_takeWhile)
  have t: "map timestamp (hashes tieRound) = [30, 10, 40, 20]"
    by (simp add: tieRound_def)
  from endGame_sorts_by_timestamp [OF h] h u t show ?thesis
    by (auto simp: tieRound_sorted)
qed

section \<open>The handlers\<close>

text \<open>
  C3. For every state whose active flag is false, a \<open>tap\<close> message changes nothing: the
  handler returns the state as it was (roster, submissions, start time, active flag),
  sends no message, so no \<open>newHash\<close>, sets no timer and has no error branch.
\<close>

theorem tap_inactive_noop:
  assumes "\<not> isActive s"
  shows "onMessage digestOf pid now (Tap n) s = (s, [], [])"
  using assms by (simp add: onMessage_def)

theorem tap_inactive_noop_witness:
  "\<not> isActive (fst (endGame tieRound))
   \<and> onMessage constDigest ''p1'' 50 (Tap 3) (fst (endGame tieRound))
       = (fst (endGame tieRound), [], [])"
proof -
  have i: "\<not> isActive (fst (endGame tieRound))"
    by (simp add: endGame_state)
  from tap_inactive_noop [OF i] i show ?thesis by simp
qed

lemma tap_active:
  "isActive s \<Longrightarrow>
   onMessage digestOf pid now (Tap n) s =
     (s\<lparr>hashes := hashes s @
          [\<lparr>playerId = pid, playerName = map_of (players s) pid,
            hash = digestOf pid now n,
            timestamp = now, tapCount = n\<rparr>]\<rparr>,
      [Broadcast (NewHash pid (map_of (players s) pid)
         (digestOf pid now n)
         (countLeadingZeros (digestOf pid now n)))],
      [])"
  by (simp add: onMessage_def Let_def)

lemma endGame_strict_maximum:
  assumes "x \<in> set (hashes s)"
    and "\<forall>y\<in>set (hashes s). y \<noteq> x \<longrightarrow> countLeadingZeros (hash y) < countLeadingZeros (hash x)"
  shows "endGame s =
           (s\<lparr>isActive := False, hashes := sort_key timestamp (hashes s)\<rparr>,
            [Broadcast (GameEnd
               (Some \<lparr>w_playerId = playerId x,
                      w_playerName = map_of (players s) (playerId x),
                      w_hash = hash x,
                      w_leadingZeros = int (countLeadingZeros (hash x))\<rparr>)
               (sort_key timestamp (hashes s)))],
            [(10000, CallStartNewGame)])"
proof -
  have "scanHashes (sort_key timestamp (hashes s)) None (- 1)
        = (Some x, int (countLeadingZeros (hash x)))"
    using assms by (intro scanHashes_strict_max) simp_all
  then show ?thesis by (simp add: endGame_def)
qed

text \<open>
  C9. A connection that has no roster entry may tap: while the round is active its \<open>tap\<close>
  appends a submission and broadcasts \<open>newHash\<close>, both with the name absent; the
  submission is in the sequence \<open>endGame\<close> scores, and when its leading-zero count is
  greater than that of every earlier submission it is the winner of the \<open>gameEnd\<close>
  message, again with the name absent.
\<close>

theorem tap_without_join:
  assumes "isActive s" and "map_of (players s) pid = None"
  shows "let h = digestOf pid now n;
             sub = \<lparr>playerId = pid, playerName = None, hash = h, timestamp = now, tapCount = n\<rparr>;
             s1 = s\<lparr>hashes := hashes s @ [sub]\<rparr>
         in onMessage digestOf pid now (Tap n) s
              = (s1, [Broadcast (NewHash pid None h (countLeadingZeros h))], [])
            \<and> sub \<in> set (hashes (fst (endGame s1)))
            \<and> ((\<forall>x\<in>set (hashes s). countLeadingZeros (hash x) < countLeadingZeros h) \<longrightarrow>
                 fst (snd (endGame s1)) =
                   [Broadcast (GameEnd
                      (Some \<lparr>w_playerId = pid, w_playerName = None, w_hash = h,
                             w_leadingZeros = int (countLeadingZeros h)\<rparr>)
                      (sort_key timestamp (hashes s @ [sub])))])"
proof -
  define h where "h = digestOf pid now n"
  define sub where
    "sub = \<lparr>playerId = pid, playerName = None, hash = h, timestamp = now, tapCount = n\<rparr>"
  define s1 where "s1 = s\<lparr>hashes := hashes s @ [sub]\<rparr>"
  have a: "onMessage digestOf pid now (Tap n) s
             = (s1, [Broadcast (NewHash pid None h (countLeadingZeros h))], [])"
    using assms by (simp add: tap_active h_def sub_def s1_def)
  have b: "sub \<in> set (hashes (fst (endGame s1)))"
    by (simp add: endGame_state s1_def)
  have c: "fst (snd (endGame s1)) =
             [Broadcast (GameEnd
                (Some \<lparr>w_playerId = pid, w_playerName = None, w_hash = h,
                       w_leadingZeros = int (countLeadingZeros h)\<rparr>)
                (sort_key timestamp (hashes s @ [sub])))]"
    if lt: "\<forall>x\<in>set (hashes s). countLeadingZeros (hash x) < countLeadingZeros h"
  proof -
    have m: "sub \<in> set (hashes s1)" by (simp add: s1_def)
    have o: "\<forall>y\<in>set (hashes s1). y \<noteq> sub \<longrightarrow> countLeadingZeros (hash y) < countLeadingZeros (hash sub)"
      using lt by (auto simp: s1_def sub_def)
    show ?thesis
      unfolding endGame_strict_maximum [OF m o]
      using assms(2) by (simp add: s1_def sub_def)
  qed
  from a b c show ?thesis
    unfolding Let_def h_def [symmetric] sub_def [symmetric] s1_def [symmetric] by blast
qed


lemma joinedRound_eq:
  "joinedRound =
     \<lparr>isActive = True, players = [(''p1'', ''Alice'')], hashes = [], startTime = Some 0,
      duration = 120000\<rparr>"
  by (simp add: joinedRound_def onMessage_def startNewGame_def initialGameState_def Let_def)

lemma tappedRound_eq:
  "tappedRound =
     \<lparr>isActive = True, players = [(''p1'', ''Alice'')],
      hashes = [\<lparr>playerId = ''p1'', playerName = Some ''Alice'', hash = ''00ab'',
                 timestamp = 2, tapCount = 1\<rparr>],
      startTime = Some 0, duration = 120000\<rparr>"
  by (simp add: tappedRound_def joinedRound_eq onMessage_def constDigest_def Let_def)

lemma leftRound_eq:
  "leftRound =
     \<lparr>isActive = True, players = [],
      hashes = [\<lparr>playerId = ''p1'', playerName = Some ''Alice'', hash = ''00ab'',
                 timestamp = 2, tapCount = 1\<rparr>],
      startTime = Some 0, duration = 120000\<rparr>"
  by (simp add: leftRound_def tappedRound_eq onClose_def Let_def)

lemma renamedRound_eq:
  "renamedRound =
     \<lparr>isActive = True, players = [(''p1'', ''Alicia'')],
      hashes = [\<lparr>playerId = ''p1'', playerName = Some ''Alice'', hash = ''00ab'',
                 timestamp = 2, tapCount = 1\<rparr>],
      startTime = Some 0, duration = 120000\<rparr>"
  by (simp add: renamedRound_def tappedRound_eq onMessage_def Let_def)

theorem tap_without_join_witness:
  "isActive tappedRound
   \<and> map_of (players tappedRound) ''p9'' = None
   \<and> onMessage (\<lambda>pid ts n. ''000f'') ''p9'' 7 (Tap 4) tappedRound =
       (tappedRound\<lparr>hashes := hashes tappedRound @
          [\<lparr>playerId = ''p9'', playerName = None, hash = ''000f'', timestamp = 7, tapCount = 4\<rparr>]\<rparr>,
        [Broadcast (NewHash ''p9'' None ''000f'' 3)], [])
   \<and> fst (snd (endGame (tappedRound\<lparr>hashes := hashes tappedRound @
          [\<lparr>playerId = ''p9'', playerName = None, hash = ''000f'', timestamp = 7, tapCount = 4\<rparr>]\<rparr>))) =
       [Broadcast (GameEnd
          (Some \<lparr>w_playerId = ''p9'', w_playerName = None, w_hash = ''000f'', w_leadingZeros = 3\<rparr>)
          [\<lparr>playerId = ''p1'', playerName = Some ''Alice'', hash = ''00ab'', timestamp = 2, tapCount = 1\<rparr>,
           \<lparr>playerId = ''p9'', playerName = None, hash = ''000f'', timestamp = 7, tapCount = 4\<rparr>])]"
proof -
  have a: "isActive tappedRound" by (simp add: tappedRound_eq)
  have b: "map_of (players tappedRound) ''p9'' = None" by (simp add: tappedRound_eq)
  have z: "countLeadingZeros ''000f'' = 3" "countLeadingZeros ''00ab'' = 2"
    by (simp_all add: countLeadingZeros_takeWhile)
  have c: "\<forall>x\<in>set (hashes tappedRound). countLeadingZeros (hash x) < countLeadingZeros ''000f''"
    by (simp add: tappedRound_eq z)
  have d: "sort_key timestamp (hashes tappedRound @
          [\<lparr>playerId = ''p9'', playerName = None, hash = ''000f'', timestamp = 7, tapCount = 4\<rparr>])
     = [\<lparr>playerId = ''p1'', playerName = Some ''Alice'', hash = ''00ab'', timestamp = 2, tapCount = 1\<rparr>,
           \<lparr>playerId = ''p9'', playerName = None, hash = ''000f'', timestamp = 7, tapCount = 4\<rparr>]"
    by (simp add: tappedRound_eq)
  from tap_without_join [OF a b, of "\<lambda>pid ts n. ''000f''" 7 4] a b c show ?thesis
    by (simp add: Let_def z d)
qed




section \<open>The timer chain\<close>

lemma startNewGame_eq:
  "startNewGame now s =
     (s\<lparr>isActive := True, players := [], hashes := [], startTime := Some now\<rparr>,
      [Broadcast (GameStart now)],
      [(duration s, CallEndGame)])"
  by (simp add: startNewGame_def Let_def)

lemma onMessage_keeps_phase:
  "onMessage digestOf pid now m s = (s', out, ts) \<Longrightarrow> ts = [] \<and> isActive s' = isActive s"
  by (cases m) (auto simp: onMessage_def Let_def split: if_splits)

lemma onClose_keeps_phase:
  "onClose pid s = (s', out, ts) \<Longrightarrow> ts = [] \<and> isActive s' = isActive s"
  by (auto simp: onClose_def Let_def)

lemma reachable_one_timer:
  "reachable digestOf s P \<Longrightarrow>
   (P = [CallEndGame] \<and> isActive s) \<or> (P = [CallStartNewGame] \<and> \<not> isActive s)"
proof (induction rule: reachable.induct)
  case (listen now s out ts)
  then show ?case by (auto simp: startNewGame_eq)
next
  case (message s P pid now m s' out ts)
  from onMessage_keeps_phase [OF message.hyps(2)] message.IH show ?case by simp
next
  case (close s P pid s' out ts)
  from onClose_keeps_phase [OF close.hyps(2)] close.IH show ?case by simp
next
  case (endTimer s P s' out ts)
  from endTimer.IH endTimer.hyps(2) have "P = [CallEndGame]" by auto
  with endGame_components [OF endTimer.hyps(3)] show ?case by simp
next
  case (startTimer s P now s' out ts)
  from startTimer.IH startTimer.hyps(2) have "P = [CallStartNewGame]" by auto
  with startTimer.hyps(3) show ?case by (auto simp: startNewGame_eq)
qed

text \<open>
  C5 as stated fails: \<open>startNewGame\<close> has no guard. Called on an active round with one
  player and one submission it does not leave the state alone: it discards both,
  broadcasts \<open>gameStart\<close> and sets a second \<open>endGame\<close> timer.
\<close>

theorem startNewGame_active_counterexample:
  "isActive tappedRound
   \<and> players tappedRound = [(''p1'', ''Alice'')]
   \<and> hashes tappedRound =
       [\<lparr>playerId = ''p1'', playerName = Some ''Alice'', hash = ''00ab'', timestamp = 2, tapCount = 1\<rparr>]
   \<and> startNewGame 5 tappedRound =
       (\<lparr>isActive = True, players = [], hashes = [], startTime = Some 5, duration = 120000\<rparr>,
        [Broadcast (GameStart 5)],
        [(120000, CallEndGame)])
   \<and> startNewGame 5 tappedRound \<noteq> (tappedRound, [], [])"
  by (simp add: tappedRound_eq startNewGame_eq)

text \<open>
  C5, amended. \<open>startNewGame\<close> is unguarded: in every state, active or not, it sets the
  active flag, empties roster and submissions, stores the new start time, broadcasts
  \<open>gameStart\<close> and sets one \<open>endGame\<close> timer. The server itself never calls it during a
  round: in every state the running server can reach, exactly one timer is pending, and a
  pending \<open>startNewGame\<close> timer implies that no round is active. There is one \<open>gameState\<close>,
  hence never more than one round.
\<close>

theorem startNewGame_unguarded_timer_chain:
  "startNewGame now s =
     (s\<lparr>isActive := True, players := [], hashes := [], startTime := Some now\<rparr>,
      [Broadcast (GameStart now)],
      [(duration s, CallEndGame)])
   \<and> (reachable digestOf s' P \<longrightarrow> length P = 1)
   \<and> (reachable digestOf s' P \<longrightarrow> CallStartNewGame \<in> set P \<longrightarrow> \<not> isActive s')"
  using reachable_one_timer [of digestOf s' P] by (auto simp: startNewGame_eq)

theorem startNewGame_unguarded_timer_chain_witness:
  "reachable constDigest (fst (endGame (fst (startNewGame 0 initialGameState)))) [CallStartNewGame]
   \<and> CallStartNewGame \<in> set [CallStartNewGame]
   \<and> length [CallStartNewGame] = 1
   \<and> \<not> isActive (fst (endGame (fst (startNewGame 0 initialGameState))))"
proof -
  let ?s0 = "fst (startNewGame 0 initialGameState)"
  let ?s1 = "fst (endGame ?s0)"
  have "startNewGame 0 initialGameState = (?s0, [Broadcast (GameStart 0)], [(120000, CallEndGame)])"
    by (simp add: startNewGame_eq initialGameState_def)
  from reachable.listen [OF this, of constDigest]
  have r0: "reachable constDigest ?s0 [CallEndGame]" by simp
  have "endGame ?s0 = (?s1, [Broadcast (GameEnd None [])], [(10000, CallStartNewGame)])"
    by (simp add: endGame_def Let_def startNewGame_eq)
  from reachable.endTimer [OF r0 _ this]
  have r1: "reachable constDigest ?s1 [CallStartNewGame]" by simp
  have m: "CallStartNewGame \<in> set [CallStartNewGame]" by simp
  from startNewGame_unguarded_timer_chain [of 0 initialGameState constDigest ?s1 "[CallStartNewGame]"] r1 m
  show ?thesis by blast
qed

section \<open>The name of the winner\<close>

text \<open>
  C7. The claim: the display name of the winner in \<open>gameEnd\<close> is the name cached in the
  winning submission when it was submitted. The tap handler does cache the name in the
  submission, and \<open>allHashes\<close> of the same \<open>gameEnd\<close> reports it, but the \<open>winner\<close> object
  reads \<open>gameState.players.get(winner.playerId)\<close> instead of \<open>winner.playerName\<close>. At the
  round in which Alice joins, taps and disconnects, the winner is her submission, cached
  name Alice, and the winner's name is absent; when she joins a second time as Alicia
  instead, the winner's name is Alicia. The code does not do what the claim says.
\<close>

theorem endGame_winner_name_not_cached:
  "hashes leftRound =
     [\<lparr>playerId = ''p1'', playerName = Some ''Alice'', hash = ''00ab'', timestamp = 2, tapCount = 1\<rparr>]
   \<and> fst (snd (endGame leftRound)) =
       [Broadcast (GameEnd
          (Some \<lparr>w_playerId = ''p1'', w_playerName = None, w_hash = ''00ab'', w_leadingZeros = 2\<rparr>)
          [\<lparr>playerId = ''p1'', playerName = Some ''Alice'', hash = ''00ab'', timestamp = 2, tapCount = 1\<rparr>])]
   \<and> hashes renamedRound =
     [\<lparr>playerId = ''p1'', playerName = Some ''Alice'', hash = ''00ab'', timestamp = 2, tapCount = 1\<rparr>]
   \<and> fst (snd (endGame renamedRound)) =
       [Broadcast (GameEnd
          (Some \<lparr>w_playerId = ''p1'', w_playerName = Some ''Alicia'', w_hash = ''00ab'', w_leadingZeros = 2\<rparr>)
          [\<lparr>playerId = ''p1'', playerName = Some ''Alice'', hash = ''00ab'', timestamp = 2, tapCount = 1\<rparr>])]"
  by (simp add: leftRound_eq renamedRound_eq endGame_def Let_def countLeadingZeros_takeWhile)

section \<open>Disconnecting\<close>

lemma length_delete_present:
  "distinct (map fst al) \<Longrightarrow> k \<in> fst ` set al \<Longrightarrow> length (AList.delete k al) = length al - 1"
proof (induction al)
  case Nil
  then show ?case by simp
next
  case (Cons p al)
  show ?case
  proof (cases "fst p = k")
    case True
    with Cons.prems(1) have "k \<notin> fst ` set al" by auto
    then have "AList.delete k al = al" by (rule delete_id)
    with True show ?thesis by (cases p) simp
  next
    case False
    with Cons.prems have d: "distinct (map fst al)" and k: "k \<in> fst ` set al" by auto
    then have "al \<noteq> []" by auto
    with False Cons.IH [OF d k] show ?thesis by (cases p; cases al) auto
  qed
qed

text \<open>
  C8 as stated fails: the \<open>close\<close> handler broadcasts \<open>playerLeft\<close> on every call. A
  second removal of \<open>p1\<close> broadcasts a second \<open>playerLeft\<close>, and the removal of \<open>p9\<close>,
  which never joined, broadcasts \<open>playerLeft\<close> with the count of 1 not decremented.
\<close>

theorem onClose_twice_counterexample:
  "fst (snd (onClose ''p1'' tappedRound)) = [Broadcast (PlayerLeft ''p1'' 0)]
   \<and> fst (snd (onClose ''p1'' (fst (onClose ''p1'' tappedRound)))) = [Broadcast (PlayerLeft ''p1'' 0)]
   \<and> fst (snd (onClose ''p1'' (fst (onClose ''p1'' tappedRound)))) \<noteq> []
   \<and> length (players tappedRound) = 1
   \<and> fst (snd (onClose ''p9'' tappedRound)) = [Broadcast (PlayerLeft ''p9'' 1)]"
  by (simp add: tappedRound_eq onClose_def Let_def)

text \<open>
  C8, amended. Removal is idempotent on the state: the first call deletes the roster entry
  of the identity, if any, and the second call changes nothing. Each of the two calls
  broadcasts one \<open>playerLeft\<close> with the roster size after the deletion, which is one less
  than before the first call when the identity was on the roster and the same otherwise.
\<close>

theorem onClose_twice:
  assumes "distinct (map fst (players s))"
  shows "\<exists>c. onClose pid s = (s\<lparr>players := AList.delete pid (players s)\<rparr>, [Broadcast (PlayerLeft pid c)], [])
           \<and> onClose pid (s\<lparr>players := AList.delete pid (players s)\<rparr>)
               = (s\<lparr>players := AList.delete pid (players s)\<rparr>, [Broadcast (PlayerLeft pid c)], [])
           \<and> map_of (AList.delete pid (players s)) pid = None
           \<and> c = (if pid \<in> fst ` set (players s) then length (players s) - 1 else length (players s))"
proof -
  have "length (AList.delete pid (players s))
        = (if pid \<in> fst ` set (players s) then length (players s) - 1 else length (players s))"
    using assms by (simp add: length_delete_present)
  moreover have "map_of (AList.delete pid (players s)) pid = None"
    by (simp add: delete_conv')
  ultimately show ?thesis
    by (simp add: onClose_def Let_def delete_idem)
qed

theorem onClose_twice_witness:
  "distinct (map fst (players tappedRound))
   \<and> onClose ''p1'' tappedRound = (leftRound, [Broadcast (PlayerLeft ''p1'' 0)], [])
   \<and> onClose ''p1'' leftRound = (leftRound, [Broadcast (PlayerLeft ''p1'' 0)], [])"
proof -
  have d: "distinct (map fst (players tappedRound))" by (simp add: tappedRound_eq)
  from onClose_twice [OF d, of "''p1''"] d show ?thesis
    by (simp add: tappedRound_eq leftRound_eq)
qed

end
